theory Spec2Isabelle
  imports Main "HOL-Library.Sublist" "HOL-Library.AList"
begin

section \<open>The search trie of the recognizers\<close>

text \<open>
  Both revisions (\<^verbatim>\<open>adeft/recognize.py\<close> and \<^verbatim>\<open>deft/recognize.py\<close>) use the same
  node class \<^verbatim>\<open>_TrieNode\<close>: an optional payload and a dict \<^verbatim>\<open>children\<close> from tokens to
  child nodes. The payload attribute is called \<^verbatim>\<open>longform\<close> in adeft (the longform text
  itself is stored) and \<^verbatim>\<open>grounding\<close> in deft (the grounding is stored); \<^verbatim>\<open>None\<close> is
  \<open>None\<close>. Tokens are Python strings; a character of the model is a code point below 256.
\<close>

datatype 'v trie_node =
  TrieNode (payload: "'v option") (children: "(string \<times> 'v trie_node) list")

text \<open>
  The dict \<^verbatim>\<open>children\<close> is the list of its items in insertion order.
  \<^verbatim>\<open>node.children[token]\<close> is \<open>child node token\<close>, and \<^verbatim>\<open>token not in node.children\<close>
  is \<open>child node token = None\<close>; \<^verbatim>\<open>node.children[token] = new\<close> is \<open>AList.update\<close>,
  which appends a new key and keeps the place of an old one, as the dict does.
\<close>

definition child :: "'v trie_node \<Rightarrow> string \<Rightarrow> 'v trie_node option" where
  "child node token = map_of (children node) token"

text \<open>\<^verbatim>\<open>_TrieNode()\<close>: no payload, no children.\<close>

definition new_node :: "'v trie_node" where
  "new_node = TrieNode None []"

text \<open>
  The inner loop of \<^verbatim>\<open>_init_trie\<close>:
  \<^verbatim>\<open>
  current = root
  for index, token in enumerate(edges):
      if token not in current.children:
          if index == len(edges) - 1:
              new = _TrieNode(longform)       # deft: _TrieNode(grounding)
          else:
              new = _TrieNode()
          current.children[token] = new
          current = new
      else:
          current = current.children[token]
  \<close>
  The loop mutates the nodes on the path in place; the model returns the node rebuilt along
  that path. \<^verbatim>\<open>index == len(edges) - 1\<close> holds exactly when no token follows.
\<close>

fun add_edges :: "'v \<Rightarrow> string list \<Rightarrow> 'v trie_node \<Rightarrow> 'v trie_node" where
  "add_edges v [] current = current"
| "add_edges v (token # rest) current =
     (case child current token of
        None \<Rightarrow>
          (let new = (if rest = [] then TrieNode (Some v) [] else new_node)
           in TrieNode (payload current)
                (AList.update token (add_edges v rest new) (children current)))
      | Some next_node \<Rightarrow>
          TrieNode (payload current)
            (AList.update token (add_edges v rest next_node) (children current)))"

text \<open>
  \<^verbatim>\<open>Recognizer._init_trie\<close> (deft): the grounding map is keyed on tuples of stemmed
  tokens in reverse order; the dict is the list of its items in iteration order.
\<close>

definition deft_init_trie :: "(string list \<times> 'v) list \<Rightarrow> 'v trie_node" where
  "deft_init_trie grounding_map =
     fold (\<lambda>(longform, grounding) root. add_edges grounding longform root) grounding_map new_node"

text \<open>
  \<^verbatim>\<open>AdeftRecognizer._init_trie\<close>: the keys are longform texts,
  \<^verbatim>\<open>edges = tuple(_stemmer.stem(token) for token, _ in tokenize(longform))[::-1]\<close>,
  and the terminal node stores the longform. The stemmer and the tokenizer
  (\<^verbatim>\<open>nltk\<close>, \<^verbatim>\<open>adeft.nlp\<close>) are parameters.
\<close>

definition edges_of :: "(string \<Rightarrow> string) \<Rightarrow> (string \<Rightarrow> (string \<times> 'w) list) \<Rightarrow> string \<Rightarrow> string list" where
  "edges_of stem tokenize longform = rev (map (\<lambda>(token, _). stem token) (tokenize longform))"

definition adeft_init_trie ::
  "(string \<Rightarrow> string) \<Rightarrow> (string \<Rightarrow> (string \<times> 'w) list) \<Rightarrow> (string \<times> 'g) list \<Rightarrow> string trie_node" where
  "adeft_init_trie stem tokenize grounding_map =
     fold (\<lambda>(longform, grounding) root. add_edges longform (edges_of stem tokenize longform) root)
       grounding_map new_node"

text \<open>
  \<^verbatim>\<open>AdeftRecognizer._search\<close>:
  \<^verbatim>\<open>
  current = self._trie
  for token in tokens:
      if token not in current.children:
          break
      if current.children[token].longform is None:
          current = current.children[token]
      else:
          return current.children[token].longform
  \<close>
  Leaving the loop by \<^verbatim>\<open>break\<close> or by exhaustion returns \<^verbatim>\<open>None\<close>.
\<close>

fun adeft_search :: "'v trie_node \<Rightarrow> string list \<Rightarrow> 'v option" where
  "adeft_search current [] = None"
| "adeft_search current (token # tokens) =
     (case child current token of
        None \<Rightarrow> None
      | Some next_node \<Rightarrow>
          (if payload next_node = None then adeft_search next_node tokens
           else payload next_node))"

text \<open>
  \<^verbatim>\<open>Recognizer._search\<close> (deft) tests the payload the other way round, and returns
  \<^verbatim>\<open>None\<close> in the \<^verbatim>\<open>else\<close> of the \<^verbatim>\<open>for\<close> (after \<^verbatim>\<open>break\<close> the method ends without
  a \<^verbatim>\<open>return\<close>, which is \<^verbatim>\<open>None\<close> as well).
\<close>

fun deft_search :: "'v trie_node \<Rightarrow> string list \<Rightarrow> 'v option" where
  "deft_search current [] = None"
| "deft_search current (token # tokens) =
     (case child current token of
        None \<Rightarrow> None
      | Some next_node \<Rightarrow>
          (if payload next_node \<noteq> None then payload next_node
           else deft_search next_node tokens))"

text \<open>The node reached from a node along a path of tokens, if every edge exists.\<close>

fun node_at :: "'v trie_node \<Rightarrow> string list \<Rightarrow> 'v trie_node option" where
  "node_at n [] = Some n"
| "node_at n (token # path) =
     (case child n token of None \<Rightarrow> None | Some next_node \<Rightarrow> node_at next_node path)"

text \<open>A node is terminal when it carries a payload.\<close>

definition terminal_at :: "'v trie_node \<Rightarrow> string list \<Rightarrow> 'v option" where
  "terminal_at root path = (case node_at root path of None \<Rightarrow> None | Some n \<Rightarrow> payload n)"


text \<open>
  The walk of the trie search as the specification words it: consume one token at a time;
  stop with no match when the current node has no child for the token; otherwise move to
  the child and return its value at once when it is terminal; no match when the tokens
  are exhausted.
\<close>

inductive search_spec :: "'v trie_node \<Rightarrow> string list \<Rightarrow> 'v option \<Rightarrow> bool" where
  exhausted: "search_spec node [] None"
| no_child: "child node token = None \<Longrightarrow> search_spec node (token # tokens) None"
| terminal_child:
    "child node token = Some c \<Longrightarrow> payload c = Some v \<Longrightarrow>
     search_spec node (token # tokens) (Some v)"
| descend:
    "child node token = Some c \<Longrightarrow> payload c = None \<Longrightarrow>
     search_spec c tokens r \<Longrightarrow> search_spec node (token # tokens) r"

code_pred search_spec .

text \<open>
  Auxiliary notions for the analysis of \<^verbatim>\<open>_init_trie\<close>: the node the loop continues
  with after one token, the outer loop started from any root, and the first item of the
  map (in iteration order) whose key extends a given path.
\<close>

definition child_or_new :: "'v \<Rightarrow> string list \<Rightarrow> 'v trie_node \<Rightarrow> string \<Rightarrow> 'v trie_node" where
  "child_or_new v rest t token =
     (case child t token of
        None \<Rightarrow> (if rest = [] then TrieNode (Some v) [] else new_node)
      | Some next_node \<Rightarrow> next_node)"

definition build_from :: "'v trie_node \<Rightarrow> (string list \<times> 'v) list \<Rightarrow> 'v trie_node" where
  "build_from t es = fold (\<lambda>(k, v) root. add_edges v k root) es t"

definition first_with_prefix ::
  "string list \<Rightarrow> (string list \<times> 'v) list \<Rightarrow> (string list \<times> 'v) option" where
  "first_with_prefix p es = find (\<lambda>(k, v). prefix p k) es"

section \<open>Strings, lists and errors of the Python code\<close>

datatype py_error = IndexError | KeyError

text \<open>
  \<^verbatim>\<open>for x in xs: body\<close> over a state, where the body may raise: the first error ends
  the loop. \<^verbatim>\<open>continue\<close> is a body that returns the state unchanged.
\<close>

fun for_each :: "('a \<Rightarrow> 's \<Rightarrow> py_error + 's) \<Rightarrow> 'a list \<Rightarrow> 's \<Rightarrow> py_error + 's" where
  "for_each body [] s = Inr s"
| "for_each body (x # xs) s =
     (case body x s of Inl e \<Rightarrow> Inl e | Inr s' \<Rightarrow> for_each body xs s')"

text \<open>\<^verbatim>\<open>xs[i]\<close>: negative indices count from the end, an index out of range raises.\<close>

definition py_index :: "'a list \<Rightarrow> int \<Rightarrow> py_error + 'a" where
  "py_index xs i =
     (if 0 \<le> i \<and> i < int (length xs) then Inr (xs ! nat i)
      else if i < 0 \<and> - int (length xs) \<le> i then Inr (xs ! nat (int (length xs) + i))
      else Inl IndexError)"

text \<open>\<^verbatim>\<open>xs[:k]\<close>: a negative bound counts from the end; the slice never raises.\<close>

definition py_slice_upto :: "'a list \<Rightarrow> int \<Rightarrow> 'a list" where
  "py_slice_upto xs k = (if 0 \<le> k then take (nat k) xs else take (nat (int (length xs) + k)) xs)"

text \<open>
  Whitespace (\<^verbatim>\<open>str.isspace\<close>, \<^verbatim>\<open>\s\<close>) and word characters (\<^verbatim>\<open>\w\<close>) of Python 3 among
  the code points below 256.
\<close>

definition is_space :: "char \<Rightarrow> bool" where
  "is_space c =
     (let n = (of_char c :: nat)
      in (9 \<le> n \<and> n \<le> 13) \<or> (28 \<le> n \<and> n \<le> 32) \<or> n = 133 \<or> n = 160)"

definition is_word_char :: "char \<Rightarrow> bool" where
  "is_word_char c =
     (let n = (of_char c :: nat)
      in (48 \<le> n \<and> n \<le> 57) \<or> (65 \<le> n \<and> n \<le> 90) \<or> n = 95 \<or> (97 \<le> n \<and> n \<le> 122) \<or>
         n = 170 \<or> n = 178 \<or> n = 179 \<or> n = 181 \<or> n = 185 \<or> n = 186 \<or>
         (188 \<le> n \<and> n \<le> 190) \<or> (192 \<le> n \<and> n \<le> 214) \<or> (216 \<le> n \<and> n \<le> 246) \<or>
         (248 \<le> n \<and> n \<le> 255))"

text \<open>\<^verbatim>\<open>re.match(r'\w+', token)\<close> succeeds when the token starts with a word character.\<close>

definition word_match :: "string \<Rightarrow> bool" where
  "word_match token = (case token of [] \<Rightarrow> False | c # _ \<Rightarrow> is_word_char c)"

text \<open>\<^verbatim>\<open>string.punctuation\<close>, and \<^verbatim>\<open>a in b\<close> on strings (substring test).\<close>

definition punctuation :: string where
  "punctuation =
     ''!'' @ [CHR 0x22] @ ''#$%&'' @ [CHR 0x27] @ ''()*+,-./:;<=>?@['' @ [CHR 0x5C] @ '']^_`{|}~''"

fun str_in :: "string \<Rightarrow> string \<Rightarrow> bool" where
  "str_in a [] = (a = [])"
| "str_in a (c # cs) = (prefix a (c # cs) \<or> str_in a cs)"

text \<open>\<^verbatim>\<open>s.split()\<close>: the maximal runs of non-whitespace characters.\<close>

fun split_from :: "string \<Rightarrow> string \<Rightarrow> string list" where
  "split_from w [] = (if w = [] then [] else [w])"
| "split_from w (c # cs) =
     (if is_space c then (if w = [] then split_from [] cs else w # split_from [] cs)
      else split_from (w @ [c]) cs)"

definition str_split :: "string \<Rightarrow> string list" where
  "str_split s = split_from [] s"

text \<open>\<^verbatim>\<open>sep.join(words)\<close>, \<^verbatim>\<open>s.strip()\<close>.\<close>

fun str_join :: "string \<Rightarrow> string list \<Rightarrow> string" where
  "str_join sep [] = []"
| "str_join sep [w] = w"
| "str_join sep (w # v # ws) = w @ sep @ str_join sep (v # ws)"

definition str_strip :: "string \<Rightarrow> string" where
  "str_strip s = rev (dropWhile is_space (rev (dropWhile is_space s)))"

text \<open>
  \<^verbatim>\<open>s.replace(old, new)\<close>: the occurrences of \<^verbatim>\<open>old\<close> are replaced from left to right
  without overlap; the counter is the number of characters of the current occurrence
  still to be skipped. An empty \<^verbatim>\<open>old\<close> matches before every character and at the end.
\<close>

fun replace_from :: "string \<Rightarrow> string \<Rightarrow> nat \<Rightarrow> string \<Rightarrow> string" where
  "replace_from old new skip [] = []"
| "replace_from old new (Suc skip) (c # cs) = replace_from old new skip cs"
| "replace_from old new 0 (c # cs) =
     (if prefix old (c # cs) then new @ replace_from old new (length old - 1) cs
      else c # replace_from old new 0 cs)"

definition str_replace :: "string \<Rightarrow> string \<Rightarrow> string \<Rightarrow> string" where
  "str_replace old new s =
     (if old = [] then new @ concat (map (\<lambda>c. c # new) s) else replace_from old new 0 s)"


definition paren_match :: "string \<Rightarrow> string \<Rightarrow> nat option" where
  "paren_match shortform s =
     (case s of
        [] \<Rightarrow> None
      | c # s1 \<Rightarrow>
          if c \<noteq> CHR ''('' then None
          else let s2 = dropWhile is_space s1 in
            if \<not> prefix shortform s2 then None
            else (case dropWhile is_space (drop (length shortform) s2) of
                    [] \<Rightarrow> None
                  | d # s4 \<Rightarrow> if d = CHR '')'' then Some (length s - length s4) else None))"

fun sub_from :: "string \<Rightarrow> nat \<Rightarrow> string \<Rightarrow> string" where
  "sub_from shortform skip [] = []"
| "sub_from shortform (Suc skip) (c # cs) = sub_from shortform skip cs"
| "sub_from shortform 0 (c # cs) =
     (case paren_match shortform (c # cs) of
        Some n \<Rightarrow> '' '' @ shortform @ '' '' @ sub_from shortform (n - 1) cs
      | None \<Rightarrow> c # sub_from shortform 0 cs)"

definition re_sub_paren :: "string \<Rightarrow> string \<Rightarrow> string" where
  "re_sub_paren shortform text = sub_from shortform 0 text"



section \<open>The adeft recognizer\<close>

text \<open>
  The collaborators that live outside the recognizer are parameters of the model:
  \<^verbatim>\<open>_stemmer.stem\<close>, \<^verbatim>\<open>tokenize\<close> and \<^verbatim>\<open>untokenize\<close> of \<^verbatim>\<open>adeft.nlp\<close>,
  \<^verbatim>\<open>get_candidate_fragments\<close> and \<^verbatim>\<open>get_candidate\<close> of \<^verbatim>\<open>adeft.util\<close>. The trie of a
  recognizer is the one its constructor builds from the grounding map.
\<close>

text \<open>\<^verbatim>\<open>AdeftRecognizer._post_process\<close>: \<^verbatim>\<open>self.grounding_map[longform]\<close>.\<close>

definition post_process :: "(string \<times> 'g) list \<Rightarrow> string \<Rightarrow> py_error + 'g" where
  "post_process grounding_map lf =
     (case map_of grounding_map lf of None \<Rightarrow> Inl KeyError | Some g \<Rightarrow> Inr g)"

text \<open>
  The body of the loop of \<^verbatim>\<open>BaseRecognizer.recognize\<close>:
  \<^verbatim>\<open>
  if not fragment:
      continue
  tokens = get_candidate(fragment, self.exclude)
  longform = self._search(tuple(_stemmer.stem(token) for token in tokens[::-1]))
  if longform:
      grounding = self._post_process(longform)
      groundings.add(grounding)
  \<close>
  \<^verbatim>\<open>if longform\<close> is false for \<^verbatim>\<open>None\<close> and for the empty string.
\<close>

definition recognize_fragment ::
  "(string \<Rightarrow> string) \<Rightarrow> (string \<Rightarrow> string set \<Rightarrow> string list) \<Rightarrow> string trie_node \<Rightarrow>
   (string \<times> 'g) list \<Rightarrow> string set \<Rightarrow> string \<Rightarrow> 'g set \<Rightarrow> py_error + 'g set" where
  "recognize_fragment stem get_candidate trie grounding_map exclude fragment groundings =
     (if fragment = [] then Inr groundings
      else
        let tokens = get_candidate fragment exclude;
            found = adeft_search trie (map stem (rev tokens))
        in case found of
             None \<Rightarrow> Inr groundings
           | Some lf \<Rightarrow>
               if lf = [] then Inr groundings
               else (case post_process grounding_map lf of
                       Inl e \<Rightarrow> Inl e
                     | Inr g \<Rightarrow> Inr (insert g groundings)))"

definition adeft_recognize ::
  "(string \<Rightarrow> string) \<Rightarrow> (string \<Rightarrow> (string \<times> 'w) list) \<Rightarrow>
   (string \<Rightarrow> string \<Rightarrow> nat \<Rightarrow> string list) \<Rightarrow> (string \<Rightarrow> string set \<Rightarrow> string list) \<Rightarrow>
   (string \<times> 'g) list \<Rightarrow> string \<Rightarrow> nat \<Rightarrow> string set \<Rightarrow> string \<Rightarrow> py_error + 'g set" where
  "adeft_recognize stem tokenize get_candidate_fragments get_candidate
       grounding_map shortform window exclude text =
     for_each
       (recognize_fragment stem get_candidate (adeft_init_trie stem tokenize grounding_map)
          grounding_map exclude)
       (get_candidate_fragments text shortform window) {}"

text \<open>
  The backward scan of \<^verbatim>\<open>strip_defining_patterns\<close>:
  \<^verbatim>\<open>
  i = 0
  j = len(tokens) - 1
  while i < num_words:
      if re.match(r'\w+', tokens[j][0]):
          i += 1
      j -= 1
      if i > 100:
          break
  \<close>
  The result is the final \<^verbatim>\<open>j\<close>, or the error of \<^verbatim>\<open>tokens[j]\<close>.
\<close>

function scan_back :: "(string \<times> 'w) list \<Rightarrow> nat \<Rightarrow> nat \<Rightarrow> int \<Rightarrow> py_error + int" where
  "scan_back tokens num_words i j =
     (if i < num_words then
        (case py_index tokens j of
           Inl e \<Rightarrow> Inl e
         | Inr tok \<Rightarrow>
             (let i' = (if word_match (fst tok) then i + 1 else i); j' = j - 1
              in if i' > 100 then Inr j' else scan_back tokens num_words i' j'))
      else Inr j)"
  by pat_completeness auto
termination
  by (relation "measure (\<lambda>(tokens, num_words, i, j). nat (j + int (length tokens) + 1))")
     (auto simp: py_index_def Let_def split: if_splits)

text \<open>
  The body of the loop over the fragments in \<^verbatim>\<open>strip_defining_patterns\<close>; the state of
  the loop is \<^verbatim>\<open>text\<close>:
  \<^verbatim>\<open>
  tokens = tokenize(fragment)
  longform = self._search(tuple(_stemmer.stem(token)
                                for token, _ in tokens[::-1]
                                if token not in string.punctuation))
  if longform is None:
      continue
  num_words = len(longform.split())
  ... the backward scan ...
  text = text.replace(fragment.strip(), untokenize(tokens[:j+1]))
  \<close>
\<close>

definition strip_fragment ::
  "(string \<Rightarrow> string) \<Rightarrow> (string \<Rightarrow> (string \<times> 'w) list) \<Rightarrow> ((string \<times> 'w) list \<Rightarrow> string) \<Rightarrow>
   string trie_node \<Rightarrow> string \<Rightarrow> string \<Rightarrow> py_error + string" where
  "strip_fragment stem tokenize untokenize trie fragment text =
     (let tokens = tokenize fragment;
          found = adeft_search trie
                    (map stem (filter (\<lambda>token. \<not> str_in token punctuation) (map fst (rev tokens))))
      in case found of
           None \<Rightarrow> Inr text
         | Some lf \<Rightarrow>
             (let num_words = length (str_split lf)
              in case scan_back tokens num_words 0 (int (length tokens) - 1) of
                   Inl e \<Rightarrow> Inl e
                 | Inr j \<Rightarrow>
                     Inr (str_replace (str_strip fragment)
                            (untokenize (py_slice_upto tokens (j + 1))) text)))"

text \<open>
  \<^verbatim>\<open>BaseRecognizer.strip_defining_patterns\<close>. The fragments are taken from the text
  given, with the default window of \<^verbatim>\<open>get_candidate_fragments\<close> (100); after the loop
  every parenthesized shortform is replaced and the whitespace is normalized:
  \<^verbatim>\<open>' '.join(stripped_text.split())\<close>.
\<close>

definition strip_defining_patterns ::
  "(string \<Rightarrow> string) \<Rightarrow> (string \<Rightarrow> (string \<times> 'w) list) \<Rightarrow> ((string \<times> 'w) list \<Rightarrow> string) \<Rightarrow>
   (string \<Rightarrow> string \<Rightarrow> nat \<Rightarrow> string list) \<Rightarrow>
   (string \<times> 'g) list \<Rightarrow> string \<Rightarrow> string \<Rightarrow> py_error + string" where
  "strip_defining_patterns stem tokenize untokenize get_candidate_fragments
       grounding_map shortform text =
     (let fragments = get_candidate_fragments text shortform 100
      in case for_each
                (strip_fragment stem tokenize untokenize
                   (adeft_init_trie stem tokenize grounding_map))
                fragments text of
           Inl e \<Rightarrow> Inl e
         | Inr text' \<Rightarrow> Inr (str_join '' '' (str_split (re_sub_paren shortform text'))))"

section \<open>The deft recognizer\<close>

text \<open>
  \<^verbatim>\<open>Recognizer.recognize\<close>: \<^verbatim>\<open>self._processor.extract\<close> (of \<^verbatim>\<open>deft.extraction\<close>) is a
  parameter. The set comprehension collects the result of every search, \<^verbatim>\<open>None\<close> included:
  \<^verbatim>\<open>
  groundings = set([self._search(tuple(_snow.stem(token) for token in candidate[::-1]))
                    for candidate in candidates])
  if len(groundings) > 1:
      logger.info(...)
  return groundings.pop() if groundings else None
  \<close>
  \<^verbatim>\<open>set.pop\<close> removes and returns an arbitrary element, so the model is the relation
  between the text and each value the call may return; the log is a flag.
\<close>

definition deft_groundings ::
  "(string \<Rightarrow> string list list) \<Rightarrow> (string \<Rightarrow> string) \<Rightarrow> (string list \<times> 'v) list \<Rightarrow> string \<Rightarrow>
   'v option set" where
  "deft_groundings extract stem grounding_map text =
     set (map (\<lambda>candidate. deft_search (deft_init_trie grounding_map) (map stem (rev candidate)))
            (extract text))"

definition deft_recognize_logs ::
  "(string \<Rightarrow> string list list) \<Rightarrow> (string \<Rightarrow> string) \<Rightarrow> (string list \<times> 'v) list \<Rightarrow> string \<Rightarrow> bool" where
  "deft_recognize_logs extract stem grounding_map text =
     (card (deft_groundings extract stem grounding_map text) > 1)"

definition deft_recognize ::
  "(string \<Rightarrow> string list list) \<Rightarrow> (string \<Rightarrow> string) \<Rightarrow> (string list \<times> 'v) list \<Rightarrow> string \<Rightarrow>
   'v option \<Rightarrow> bool" where
  "deft_recognize extract stem grounding_map text result =
     (let groundings = deft_groundings extract stem grounding_map text
      in if groundings = {} then result = None else result \<in> groundings)"

text \<open>
  An instance of the collaborators, used to evaluate the model at concrete inputs: the
  tokens of a text are its whitespace-separated words, each paired with a dummy, and
  \<open>words_untokenize\<close> joins the tokens with single spaces. On the texts evaluated below
  every word is a single token of \<^verbatim>\<open>adeft.nlp.tokenize\<close> as well.
\<close>

definition words_tokenize :: "string \<Rightarrow> (string \<times> unit) list" where
  "words_tokenize s = map (\<lambda>w. (w, ())) (str_split s)"

definition words_untokenize :: "(string \<times> unit) list \<Rightarrow> string" where
  "words_untokenize tokens = str_join '' '' (map fst tokens)"

section \<open>Properties of the trie\<close>

subsection \<open>One insertion\<close>

lemma payload_add_edges: "payload (add_edges v k t) = payload t"
  by (cases k) (auto split: option.splits simp: Let_def)

lemma child_add_edges:
  "child (add_edges v (token # rest) t) tok =
     (if tok = token then Some (add_edges v rest (child_or_new v rest t token))
      else child t tok)"
  by (auto simp: child_or_new_def Let_def child_def update_conv' split: option.splits)

lemma node_at_new_node: "node_at new_node p = (if p = [] then Some new_node else None)"
  by (cases p) (auto simp: new_node_def child_def)

lemma node_at_leaf:
  "node_at (TrieNode x []) p = (if p = [] then Some (TrieNode x []) else None)"
  by (cases p) (auto simp: child_def)

lemma node_at_child_or_new:
  "node_at (child_or_new v rest t token) ps = None \<longleftrightarrow>
     (if child t token = None then ps \<noteq> [] else node_at t (token # ps) = None)"
  by (auto simp: child_or_new_def node_at_leaf node_at_new_node split: option.splits)

lemma terminal_at_child_or_new:
  "terminal_at (child_or_new v rest t token) ps =
     (if child t token = None then (if ps = [] \<and> rest = [] then Some v else None)
      else terminal_at t (token # ps))"
  by (auto simp: child_or_new_def terminal_at_def node_at_leaf node_at_new_node new_node_def
      split: option.splits)

lemma node_at_Cons_add_edges:
  "node_at (add_edges v (token # rest) t) (tok # ps) =
     (if tok = token then node_at (add_edges v rest (child_or_new v rest t token)) ps
      else node_at t (tok # ps))"
  by (simp add: child_add_edges del: add_edges.simps)

lemma terminal_at_add_edges:
  "terminal_at (add_edges v k t) p =
     (if node_at t p = None then (if p = k then Some v else None) else terminal_at t p)"
proof (induction k arbitrary: t p)
  case Nil
  then show ?case by (cases p) (auto simp: terminal_at_def)
next
  case (Cons token rest)
  show ?case
  proof (cases p)
    case Nil
    then show ?thesis by (simp add: terminal_at_def payload_add_edges del: add_edges.simps)
  next
    case p: (Cons tok ps)
    show ?thesis
    proof (cases "tok = token")
      case False
      then show ?thesis
        by (simp add: p terminal_at_def node_at_Cons_add_edges del: add_edges.simps node_at.simps)
    next
      case True
      have "terminal_at (add_edges v (token # rest) t) p =
            terminal_at (add_edges v rest (child_or_new v rest t token)) ps"
        by (simp add: p True terminal_at_def node_at_Cons_add_edges del: add_edges.simps node_at.simps)
      also have "\<dots> = (if node_at (child_or_new v rest t token) ps = None
                       then (if ps = rest then Some v else None)
                       else terminal_at (child_or_new v rest t token) ps)"
        by (rule Cons.IH)
      also have "\<dots> = (if node_at t p = None then (if p = token # rest then Some v else None)
                       else terminal_at t p)"
      proof (cases "child t token = None")
        case True
        then have "node_at t (token # ps) = None" by simp
        with True show ?thesis
          by (auto simp: p \<open>tok = token\<close> node_at_child_or_new terminal_at_child_or_new
              simp del: node_at.simps)
      next
        case False
        then show ?thesis
          by (auto simp: p \<open>tok = token\<close> node_at_child_or_new terminal_at_child_or_new
              simp del: node_at.simps)
      qed
      finally show ?thesis .
    qed
  qed
qed

lemma node_at_add_edges_exists:
  "node_at (add_edges v k t) p = None \<longleftrightarrow> node_at t p = None \<and> \<not> prefix p k"
proof (induction k arbitrary: t p)
  case Nil
  then show ?case by (cases p) auto
next
  case (Cons token rest)
  show ?case
  proof (cases p)
    case Nil
    then show ?thesis by simp
  next
    case p: (Cons tok ps)
    show ?thesis
    proof (cases "tok = token")
      case False
      then show ?thesis
        by (simp add: p node_at_Cons_add_edges del: add_edges.simps node_at.simps)
    next
      case True
      have "node_at (add_edges v (token # rest) t) p = None \<longleftrightarrow>
            node_at (add_edges v rest (child_or_new v rest t token)) ps = None"
        by (simp add: p True node_at_Cons_add_edges del: add_edges.simps node_at.simps)
      also have "\<dots> \<longleftrightarrow> node_at (child_or_new v rest t token) ps = None \<and> \<not> prefix ps rest"
        by (rule Cons.IH)
      also have "\<dots> \<longleftrightarrow> node_at t p = None \<and> \<not> prefix p (token # rest)"
        by (auto simp: p True node_at_child_or_new split: option.splits)
      finally show ?thesis .
    qed
  qed
qed


subsection \<open>The whole map\<close>

lemma build_from_Nil: "build_from t [] = t"
  by (simp add: build_from_def)

lemma build_from_Cons: "build_from t ((k, v) # es) = build_from (add_edges v k t) es"
  by (simp add: build_from_def)

lemma terminal_at_build_from:
  "terminal_at (build_from t es) p =
     (if node_at t p \<noteq> None then terminal_at t p
      else (case first_with_prefix p es of
              None \<Rightarrow> None
            | Some (k, v) \<Rightarrow> if k = p then Some v else None))"
proof (induction es arbitrary: t)
  case Nil
  then show ?case
    by (auto simp: build_from_Nil first_with_prefix_def terminal_at_def)
next
  case (Cons e es)
  obtain k v where e: "e = (k, v)" by (cases e)
  show ?case
    unfolding e build_from_Cons Cons.IH
    by (auto simp: terminal_at_add_edges node_at_add_edges_exists first_with_prefix_def)
qed

lemma deft_init_trie_build: "deft_init_trie gm = build_from new_node gm"
  by (simp add: deft_init_trie_def build_from_def)

lemma adeft_init_trie_build:
  "adeft_init_trie stem tokenize gm =
     build_from new_node (map (\<lambda>(lf, g). (edges_of stem tokenize lf, lf)) gm)"
  by (simp add: adeft_init_trie_def build_from_def fold_map comp_def case_prod_unfold)

lemma deft_search_eq: "deft_search t ts = adeft_search t ts"
  by (induction t ts rule: adeft_search.induct) (auto split: option.splits)

lemma terminal_at_Cons:
  "terminal_at t (token # p) = (case child t token of None \<Rightarrow> None | Some c \<Rightarrow> terminal_at c p)"
  by (simp add: terminal_at_def split: option.splits)

lemma terminal_at_Nil: "terminal_at t [] = payload t"
  by (simp add: terminal_at_def)

text \<open>The search returns the payload of the first terminal node along the path of the tokens.\<close>

lemma adeft_search_first_terminal:
  assumes "0 < n" "n \<le> length ts" "terminal_at t (take n ts) = Some v"
    and "\<forall>m. 0 < m \<and> m < n \<longrightarrow> terminal_at t (take m ts) = None"
  shows "adeft_search t ts = Some v"
  using assms
proof (induction t ts arbitrary: n rule: adeft_search.induct)
  case (1 current)
  then show ?case by simp
next
  case (2 current token tokens)
  from "2.prems" obtain n' where n: "n = Suc n'" by (cases n) auto
  from "2.prems"(3) obtain c where child: "child current token = Some c"
    and t: "terminal_at c (take n' tokens) = Some v"
    by (auto simp: n terminal_at_Cons split: option.splits)
  show ?case
  proof (cases "payload c")
    case None
    with t have "n' \<noteq> 0" by (cases n') (auto simp: terminal_at_Nil)
    moreover have "\<forall>m. 0 < m \<and> m < n' \<longrightarrow> terminal_at c (take m tokens) = None"
    proof (intro allI impI)
      fix m assume "0 < m \<and> m < n'"
      then have "terminal_at current (take (Suc m) (token # tokens)) = None"
        using "2.prems"(4) n by auto
      then show "terminal_at c (take m tokens) = None"
        by (simp add: terminal_at_Cons child)
    qed
    ultimately have "adeft_search c tokens = Some v"
      using "2.IH"[OF child None, of n'] t "2.prems"(2) n by auto
    then show ?thesis by (simp add: child None)
  next
    case (Some w)
    have "n' = 0"
    proof (rule ccontr)
      assume "n' \<noteq> 0"
      then have "terminal_at current (take (Suc 0) (token # tokens)) = None"
        using "2.prems"(4) n by auto
      then show False by (simp add: terminal_at_Cons child terminal_at_Nil Some)
    qed
    with t have "payload c = Some v" by (simp add: terminal_at_Nil)
    then show ?thesis by (simp add: child)
  qed
qed

lemma adeft_search_SomeD:
  assumes "adeft_search t ts = Some v"
  shows "\<exists>n. 0 < n \<and> n \<le> length ts \<and> terminal_at t (take n ts) = Some v \<and>
             (\<forall>m. 0 < m \<and> m < n \<longrightarrow> terminal_at t (take m ts) = None)"
  using assms
proof (induction t ts rule: adeft_search.induct)
  case (1 current)
  then show ?case by simp
next
  case (2 current token tokens)
  from "2.prems" obtain c where child: "child current token = Some c"
    by (auto split: option.splits)
  show ?case
  proof (cases "payload c")
    case None
    with "2.prems" child have "adeft_search c tokens = Some v" by simp
    from "2.IH"[OF child None this] obtain n where n: "0 < n" "n \<le> length tokens"
      "terminal_at c (take n tokens) = Some v"
      "\<forall>m. 0 < m \<and> m < n \<longrightarrow> terminal_at c (take m tokens) = None" by blast
    have "\<forall>m. 0 < m \<and> m < Suc n \<longrightarrow> terminal_at current (take m (token # tokens)) = None"
    proof (intro allI impI)
      fix m assume m: "0 < m \<and> m < Suc n"
      then obtain m' where m': "m = Suc m'" by (cases m) auto
      show "terminal_at current (take m (token # tokens)) = None"
        using m n(4) None by (cases "m' = 0") (auto simp: m' terminal_at_Cons child terminal_at_Nil)
    qed
    with n show ?thesis
      by (intro exI[of _ "Suc n"]) (auto simp: terminal_at_Cons child)
  next
    case (Some w)
    with "2.prems" child have "w = v" by simp
    with Some show ?thesis
      by (intro exI[of _ "Suc 0"]) (auto simp: terminal_at_Cons child terminal_at_Nil)
  qed
qed

lemma build_from_append: "build_from t (es @ es') = build_from (build_from t es) es'"
  by (simp add: build_from_def)

lemma payload_build_from: "payload (build_from t es) = payload t"
  by (induction es arbitrary: t) (auto simp: build_from_Nil build_from_Cons payload_add_edges)

lemma find_Some_mem: "find P xs = Some x \<Longrightarrow> x \<in> set xs \<and> P x"
  by (induction xs) (auto split: if_splits)

text \<open>A terminal node of the built trie lies at the non-empty key of an item of the map.\<close>

lemma terminal_at_build_new_nodeD:
  assumes "terminal_at (build_from new_node es) p = Some v"
  shows "p \<noteq> [] \<and> (p, v) \<in> set es"
proof -
  have p: "p \<noteq> []"
    using assms by (auto simp: terminal_at_Nil payload_build_from new_node_def)
  then have "terminal_at (build_from new_node es) p =
      (case first_with_prefix p es of None \<Rightarrow> None
       | Some (k, w) \<Rightarrow> if k = p then Some w else None)"
    by (simp add: terminal_at_build_from node_at_new_node)
  with assms have "(case first_with_prefix p es of None \<Rightarrow> None
              | Some (k, w) \<Rightarrow> if k = p then Some w else None) = Some v"
    by simp
  then obtain k w where f: "first_with_prefix p es = Some (k, w)" and kw: "k = p" "w = v"
    by (auto split: option.splits if_splits)
  from f have "(k, w) \<in> set es"
    by (simp add: first_with_prefix_def find_Some_mem)
  with p kw show ?thesis by simp
qed

lemma adeft_search_build_new_nodeD:
  assumes "adeft_search (build_from new_node es) ts = Some v"
  shows "\<exists>p. p \<noteq> [] \<and> prefix p ts \<and> (p, v) \<in> set es"
proof -
  from adeft_search_SomeD[OF assms] obtain n where
    "terminal_at (build_from new_node es) (take n ts) = Some v" by blast
  from terminal_at_build_new_nodeD[OF this] show ?thesis
    by (intro exI[of _ "take n ts"]) (simp add: take_is_prefix)
qed

subsection \<open>The search and the walk of the specification\<close>

lemma search_spec_adeft_search: "search_spec t ts (adeft_search t ts)"
  by (induction t ts rule: adeft_search.induct)
     (auto intro: search_spec.intros split: option.splits)

lemma search_spec_functional: "search_spec t ts r \<Longrightarrow> adeft_search t ts = r"
  by (induction rule: search_spec.induct) auto

subsection \<open>Insertion along an existing path, and keys that do not overlap\<close>

lemma find_skip_prefix: "\<forall>x \<in> set xs. \<not> P x \<Longrightarrow> find P (xs @ ys) = find P ys"
  by (induction xs) auto

text \<open>The loop changes nothing when every node of the path exists already.\<close>

lemma add_edges_existing_path: "node_at t k \<noteq> None \<Longrightarrow> add_edges v k t = t"
proof (induction k arbitrary: t)
  case Nil
  then show ?case by simp
next
  case (Cons token rest)
  from Cons.prems obtain c where c: "child t token = Some c" and n: "node_at c rest \<noteq> None"
    by (auto split: option.splits)
  from Cons.IH[OF n] have "add_edges v rest c = c" .
  moreover have "AList.update token c (children t) = children t"
    using c by (simp add: child_def update_triv)
  ultimately show ?case by (simp add: c)
qed

lemma node_at_build_from_exists:
  "node_at t p \<noteq> None \<Longrightarrow> node_at (build_from t es) p \<noteq> None"
proof (induction es arbitrary: t)
  case Nil
  then show ?case by (simp add: build_from_Nil)
next
  case (Cons e es)
  obtain k v where e: "e = (k, v)" by (cases e)
  from Cons.prems have "node_at (add_edges v k t) p \<noteq> None"
    by (simp add: node_at_add_edges_exists)
  from Cons.IH[OF this] show ?case by (simp add: e build_from_Cons)
qed

lemma build_from_repeated_key:
  "build_from t (es1 @ (k, v1) # es2 @ (k, v2) # es3) = build_from t (es1 @ (k, v1) # es2 @ es3)"
proof -
  let ?t1 = "build_from (add_edges v1 k (build_from t es1)) es2"
  have "node_at (add_edges v1 k (build_from t es1)) k \<noteq> None"
    by (simp add: node_at_add_edges_exists)
  then have "node_at ?t1 k \<noteq> None" by (rule node_at_build_from_exists)
  then have "add_edges v2 k ?t1 = ?t1" by (rule add_edges_existing_path)
  then show ?thesis
    by (simp add: build_from_append build_from_Cons)
qed

lemma search_build_round_trip:
  assumes mem: "(k, v) \<in> set es" and ne: "k \<noteq> []"
    and ext: "\<forall>(k', v') \<in> set es. prefix k k' \<longrightarrow> k' = k \<and> v' = v"
    and short: "\<forall>(k', v') \<in> set es. k' \<noteq> [] \<longrightarrow> \<not> strict_prefix k' k"
  shows "adeft_search (build_from new_node es) k = Some v"
proof (rule adeft_search_first_terminal[where n = "length k"])
  show "0 < length k" using ne by simp
  show "length k \<le> length k" by simp
  have "\<exists>x \<in> set es. (\<lambda>(k', v'). prefix k k') x" using mem by auto
  then obtain k' v' where f: "first_with_prefix k es = Some (k', v')"
    by (cases "first_with_prefix k es") (auto simp: first_with_prefix_def find_None_iff)
  then have "(k', v') \<in> set es" "prefix k k'"
    using find_Some_mem[of "\<lambda>(k', v'). prefix k k'" es "(k', v')"]
    by (auto simp: first_with_prefix_def)
  with ext have "k' = k" "v' = v" by auto
  with f ne show "terminal_at (build_from new_node es) (take (length k) k) = Some v"
    by (simp add: terminal_at_build_from node_at_new_node)
  show "\<forall>m. 0 < m \<and> m < length k \<longrightarrow> terminal_at (build_from new_node es) (take m k) = None"
  proof (intro allI impI)
    fix m assume m: "0 < m \<and> m < length k"
    let ?p = "take m k"
    have p: "?p \<noteq> []" "strict_prefix ?p k"
      using m by (auto simp: strict_prefix_def take_is_prefix)
    show "terminal_at (build_from new_node es) ?p = None"
    proof (cases "first_with_prefix ?p es")
      case None
      with p show ?thesis by (simp add: terminal_at_build_from node_at_new_node)
    next
      case (Some e)
      obtain k'' v'' where e: "e = (k'', v'')" by (cases e)
      from Some have "(k'', v'') \<in> set es"
        using find_Some_mem[of "\<lambda>(k', v'). prefix ?p k'" es e]
        by (auto simp: first_with_prefix_def e)
      with short p have "k'' \<noteq> ?p" by auto
      with Some p show ?thesis
        by (simp add: terminal_at_build_from node_at_new_node e)
    qed
  qed
qed

subsection \<open>Unfolding the model at concrete inputs\<close>

lemmas eval_words =
  edges_of_def words_tokenize_def str_split_def is_space_def Let_def

lemmas eval_trie =
  adeft_init_trie_def deft_init_trie_def new_node_def child_def terminal_at_def

subsection \<open>The loop of the adeft recognizer\<close>

lemma for_each_invariant:
  assumes "I s" and "\<And>x s. I s \<Longrightarrow> \<exists>s'. body x s = Inr s' \<and> I s'"
  shows "\<exists>s'. for_each body xs s = Inr s' \<and> I s'"
  using assms(1)
proof (induction xs arbitrary: s)
  case Nil
  then show ?case by simp
next
  case (Cons x xs)
  from assms(2)[OF Cons.prems, of x] obtain s1 where "body x s = Inr s1" "I s1" by blast
  with Cons.IH[of s1] show ?case by simp
qed

lemma adeft_search_init_trie_key:
  assumes "adeft_search (adeft_init_trie stem tokenize gm) tokens = Some lf"
  shows "\<exists>g. map_of gm lf = Some g"
proof -
  from adeft_search_build_new_nodeD[OF assms[unfolded adeft_init_trie_build]]
  obtain p where "(p, lf) \<in> set (map (\<lambda>(lf, g). (edges_of stem tokenize lf, lf)) gm)" by blast
  then have "lf \<in> fst ` set gm" by force
  then show ?thesis
    by (cases "map_of gm lf") (auto simp: map_of_eq_None_iff)
qed

lemma recognize_fragment_groundings:
  assumes "groundings \<subseteq> ran (map_of gm)"
  shows "\<exists>S. recognize_fragment stem get_candidate (adeft_init_trie stem tokenize gm) gm exclude
              fragment groundings = Inr S \<and> S \<subseteq> ran (map_of gm)"
proof (cases "adeft_search (adeft_init_trie stem tokenize gm)
                (map stem (rev (get_candidate fragment exclude)))")
  case None
  with assms show ?thesis by (simp add: recognize_fragment_def)
next
  case (Some lf)
  from adeft_search_init_trie_key[OF Some] obtain g where g: "map_of gm lf = Some g" by blast
  then have "g \<in> ran (map_of gm)" by (auto simp: ran_def)
  with assms Some g show ?thesis
    by (simp add: recognize_fragment_def post_process_def)
qed

subsection \<open>Whitespace normalization and the substitution\<close>









section \<open>The claims\<close>

text \<open>
  C3. The trie search of both revisions is the walk the specification describes: from the
  root, one token at a time; no child for the next token: no match; otherwise move to the
  child and return its value at once if it is terminal; tokens exhausted: no match. The
  walk is the relation \<open>search_spec\<close>, and it relates a trie and a token sequence to exactly
  the result of \<open>adeft_search\<close>, which is the result of \<open>deft_search\<close> too.
\<close>

theorem search_is_spec_walk:
  "(search_spec root tokens r \<longleftrightarrow> adeft_search root tokens = r) \<and>
   (search_spec root tokens r \<longleftrightarrow> deft_search root tokens = r)"
  using search_spec_adeft_search[of root tokens] search_spec_functional[of root tokens r]
  by (auto simp: deft_search_eq)

theorem search_is_spec_walk_witness:
  "search_spec (deft_init_trie [([''a'', ''b''], ''G2''), ([''c''], ''G1'')])
     [''a'', ''b'', ''z''] (Some ''G2'') \<and>
   adeft_search (deft_init_trie [([''a'', ''b''], ''G2''), ([''c''], ''G1'')])
     [''a'', ''b'', ''z''] = Some ''G2'' \<and>
   deft_search (deft_init_trie [([''a'', ''b''], ''G2''), ([''c''], ''G1'')])
     [''a'', ''b'', ''z''] = Some ''G2''"
  using search_is_spec_walk[of "deft_init_trie [([''a'', ''b''], ''G2''), ([''c''], ''G1'')]"
      "[''a'', ''b'', ''z'']" "Some ''G2''"]
  by (simp add: deft_init_trie_def new_node_def child_def)

text \<open>
  C6. A search with no token returns no match, in both revisions. The root of the trie
  built from any grounding map carries no payload. An item whose key is empty leaves the
  trie as it is, so the trie is the one built without the item, and in the adeft revision
  no search returns a longform whose key is empty.
\<close>

theorem empty_key_never_matches:
  "adeft_search root [] = None \<and> deft_search root [] = None \<and>
   payload (adeft_init_trie stem tokenize gm) = None \<and>
   payload (deft_init_trie dgm) = None \<and>
   (edges_of stem tokenize lf = [] \<longrightarrow>
      adeft_search (adeft_init_trie stem tokenize gm) tokens \<noteq> Some lf \<and>
      adeft_init_trie stem tokenize (gm1 @ (lf, g) # gm2) =
        adeft_init_trie stem tokenize (gm1 @ gm2)) \<and>
   deft_init_trie (dgm1 @ ([], d) # dgm2) = deft_init_trie (dgm1 @ dgm2)"
proof -
  have "adeft_search (adeft_init_trie stem tokenize gm) tokens \<noteq> Some lf"
    if e: "edges_of stem tokenize lf = []"
  proof
    assume "adeft_search (adeft_init_trie stem tokenize gm) tokens = Some lf"
    from adeft_search_build_new_nodeD[OF this[unfolded adeft_init_trie_build]]
    obtain p where "p \<noteq> []" "(p, lf) \<in> set (map (\<lambda>(lf, g). (edges_of stem tokenize lf, lf)) gm)"
      by blast
    with e show False by auto
  qed
  moreover have "adeft_init_trie stem tokenize (gm1 @ (lf, g) # gm2) =
      adeft_init_trie stem tokenize (gm1 @ gm2)" if "edges_of stem tokenize lf = []"
    using that by (simp add: adeft_init_trie_def)
  moreover have "deft_init_trie (dgm1 @ ([], d) # dgm2) = deft_init_trie (dgm1 @ dgm2)"
    by (simp add: deft_init_trie_def)
  ultimately show ?thesis
    by (simp add: adeft_init_trie_build deft_init_trie_build payload_build_from new_node_def)
qed

theorem empty_key_never_matches_witness:
  "edges_of (\<lambda>s. s) words_tokenize '''' = [] \<and>
   adeft_search (adeft_init_trie (\<lambda>s. s) words_tokenize [('''', ''G0''), (''a'', ''G1'')]) [''a'']
     \<noteq> Some '''' \<and>
   adeft_init_trie (\<lambda>s. s) words_tokenize ([] @ ('''', ''G0'') # [(''a'', ''G1'')]) =
     adeft_init_trie (\<lambda>s. s) words_tokenize ([] @ [(''a'', ''G1'')])"
proof -
  have e: "edges_of (\<lambda>s. s) words_tokenize '''' = []"
    by (simp add: edges_of_def words_tokenize_def str_split_def)
  show ?thesis
    using e empty_key_never_matches[where stem = "\<lambda>s. s" and tokenize = words_tokenize
        and gm = "[('''', ''G0''), (''a'', ''G1'')]" and lf = "''''" and tokens = "[''a'']"
        and ?gm1.0 = "[]" and g = "''G0''" and ?gm2.0 = "[(''a'', ''G1'')]"
        and root = "new_node :: string trie_node"
        and dgm = "[] :: (string list \<times> string) list"
        and ?dgm1.0 = "[] :: (string list \<times> string) list" and d = "''D''"
        and ?dgm2.0 = "[] :: (string list \<times> string) list"]
    by blast
qed

text \<open>
  C5. Two distinct longforms with the same reversed stemmed key: the later pair does not
  overwrite anything. Inserting it leaves the trie exactly as it was, and where the earlier
  pair created the shared final node, that node keeps the earlier longform.
\<close>

theorem colliding_later_pair_is_ignored:
  assumes "edges_of stem tokenize lf2 = edges_of stem tokenize lf1"
  shows "adeft_init_trie stem tokenize (gm1 @ (lf1, g1) # gm2 @ (lf2, g2) # gm3) =
           adeft_init_trie stem tokenize (gm1 @ (lf1, g1) # gm2 @ gm3) \<and>
         (edges_of stem tokenize lf1 \<noteq> [] \<and>
          (\<forall>(lf', g') \<in> set gm1. \<not> prefix (edges_of stem tokenize lf1) (edges_of stem tokenize lf'))
          \<longrightarrow> terminal_at (adeft_init_trie stem tokenize (gm1 @ (lf1, g1) # gm2 @ (lf2, g2) # gm3))
                (edges_of stem tokenize lf1) = Some lf1)"
proof (intro conjI impI)
  let ?e = "\<lambda>(lf, g). (edges_of stem tokenize lf, lf)"
  show "adeft_init_trie stem tokenize (gm1 @ (lf1, g1) # gm2 @ (lf2, g2) # gm3) =
        adeft_init_trie stem tokenize (gm1 @ (lf1, g1) # gm2 @ gm3)"
    using assms build_from_repeated_key[of new_node "map ?e gm1" "edges_of stem tokenize lf1"
        lf1 "map ?e gm2" lf2 "map ?e gm3"]
    by (simp add: adeft_init_trie_build)
  assume h: "edges_of stem tokenize lf1 \<noteq> [] \<and>
    (\<forall>(lf', g') \<in> set gm1. \<not> prefix (edges_of stem tokenize lf1) (edges_of stem tokenize lf'))"
  let ?k = "edges_of stem tokenize lf1"
  have "\<forall>x \<in> set (map ?e gm1). \<not> (\<lambda>(k, v). prefix ?k k) x"
    using h by auto
  then have "first_with_prefix ?k (map ?e (gm1 @ (lf1, g1) # gm2 @ (lf2, g2) # gm3)) = Some (?k, lf1)"
    by (simp add: first_with_prefix_def find_skip_prefix)
  with h show "terminal_at (adeft_init_trie stem tokenize (gm1 @ (lf1, g1) # gm2 @ (lf2, g2) # gm3))
      ?k = Some lf1"
    by (simp add: adeft_init_trie_build terminal_at_build_from node_at_new_node)
qed

theorem colliding_later_pair_is_ignored_witness:
  "edges_of (\<lambda>s. s) words_tokenize ''a  b'' = edges_of (\<lambda>s. s) words_tokenize ''a b'' \<and>
   adeft_init_trie (\<lambda>s. s) words_tokenize ([] @ (''a b'', ''g1'') # [] @ (''a  b'', ''g2'') # []) =
     adeft_init_trie (\<lambda>s. s) words_tokenize ([] @ (''a b'', ''g1'') # [] @ []) \<and>
   terminal_at
     (adeft_init_trie (\<lambda>s. s) words_tokenize ([] @ (''a b'', ''g1'') # [] @ (''a  b'', ''g2'') # []))
     (edges_of (\<lambda>s. s) words_tokenize ''a b'') = Some ''a b''"
proof -
  have e: "edges_of (\<lambda>s. s) words_tokenize ''a  b'' = edges_of (\<lambda>s. s) words_tokenize ''a b''"
    by (simp add: eval_words)
  have n: "edges_of (\<lambda>s. s) words_tokenize ''a b'' \<noteq> []"
    by (simp add: eval_words)
  then have a: "edges_of (\<lambda>s. s) words_tokenize ''a b'' \<noteq> [] \<and>
      (\<forall>(lf', g') \<in> set ([] :: (string \<times> string) list).
         \<not> prefix (edges_of (\<lambda>s. s) words_tokenize ''a b'')
             (edges_of (\<lambda>s. s) words_tokenize lf'))"
    by simp
  show ?thesis
    using e a colliding_later_pair_is_ignored[OF e, of "[]" "''g1''" "[]" "''g2''" "[]"]
    by blast
qed

theorem later_pair_overwrites_counterexample:
  "''a b'' \<noteq> ''a  b'' \<and>
   edges_of (\<lambda>s. s) words_tokenize ''a b'' = [''b'', ''a''] \<and>
   edges_of (\<lambda>s. s) words_tokenize ''a  b'' = [''b'', ''a''] \<and>
   terminal_at (adeft_init_trie (\<lambda>s. s) words_tokenize [(''a b'', ''g1''), (''a  b'', ''g2'')])
     [''b'', ''a''] = Some ''a b'' \<and>
   post_process [(''a b'', ''g1''), (''a  b'', ''g2'')] ''a b'' = Inr ''g1''"
  by (simp add: eval_words eval_trie post_process_def)

text \<open>
  C1. The round trip holds for a longform whose key does not overlap with another key of
  the map: if the key of \<open>lf\<close> is not empty and no other longform of the map has a
  non-empty key that is a prefix of it or that it is a prefix of (none has the same key,
  then), the search with the key of \<open>lf\<close> returns \<open>lf\<close>, whose post-processing is the
  grounding of \<open>lf\<close>. In the deft revision, where the keys of the map are the token
  tuples, the search returns the grounding.
\<close>

theorem round_trip_without_overlap:
  "((lf, g) \<in> set gm \<and> distinct (map fst gm) \<and> edges_of stem tokenize lf \<noteq> [] \<and>
    (\<forall>(lf', g') \<in> set gm. lf' \<noteq> lf \<and> edges_of stem tokenize lf' \<noteq> [] \<longrightarrow>
       \<not> prefix (edges_of stem tokenize lf') (edges_of stem tokenize lf) \<and>
       \<not> prefix (edges_of stem tokenize lf) (edges_of stem tokenize lf'))
    \<longrightarrow> adeft_search (adeft_init_trie stem tokenize gm) (edges_of stem tokenize lf) = Some lf \<and>
        post_process gm lf = Inr g) \<and>
   ((k, v) \<in> set dgm \<and> distinct (map fst dgm) \<and> k \<noteq> [] \<and>
    (\<forall>(k', v') \<in> set dgm. k' \<noteq> k \<and> k' \<noteq> [] \<longrightarrow> \<not> prefix k' k \<and> \<not> prefix k k')
    \<longrightarrow> deft_search (deft_init_trie dgm) k = Some v)"
proof (intro conjI impI)
  let ?E = "edges_of stem tokenize"
  let ?es = "map (\<lambda>(lf, g). (?E lf, lf)) gm"
  assume a: "(lf, g) \<in> set gm \<and> distinct (map fst gm) \<and> ?E lf \<noteq> [] \<and>
    (\<forall>(lf', g') \<in> set gm. lf' \<noteq> lf \<and> ?E lf' \<noteq> [] \<longrightarrow>
       \<not> prefix (?E lf') (?E lf) \<and> \<not> prefix (?E lf) (?E lf'))"
  have mem: "(?E lf, lf) \<in> set ?es" using a by force
  have ext: "\<forall>(k', v') \<in> set ?es. prefix (?E lf) k' \<longrightarrow> k' = ?E lf \<and> v' = lf"
  proof clarsimp
    fix lf' g' assume m: "(lf', g') \<in> set gm" and p: "prefix (?E lf) (?E lf')"
    have "?E lf' \<noteq> []" using p a by auto
    with a m p have "lf' = lf" by blast
    then show "?E lf' = ?E lf \<and> lf' = lf" by simp
  qed
  have short: "\<forall>(k', v') \<in> set ?es. k' \<noteq> [] \<longrightarrow> \<not> strict_prefix k' (?E lf)"
  proof clarsimp
    fix lf' g' assume m: "(lf', g') \<in> set gm" and n: "?E lf' \<noteq> []"
      and p: "strict_prefix (?E lf') (?E lf)"
    from p have "lf' \<noteq> lf" by auto
    with a m n have "\<not> prefix (?E lf') (?E lf)" by blast
    with p show False by (simp add: strict_prefix_def)
  qed
  from a have "?E lf \<noteq> []" by simp
  from search_build_round_trip[OF mem this ext short]
  show "adeft_search (adeft_init_trie stem tokenize gm) (?E lf) = Some lf"
    by (simp add: adeft_init_trie_build)
  from a have "map_of gm lf = Some g" by simp
  then show "post_process gm lf = Inr g" by (simp add: post_process_def)
next
  assume a: "(k, v) \<in> set dgm \<and> distinct (map fst dgm) \<and> k \<noteq> [] \<and>
    (\<forall>(k', v') \<in> set dgm. k' \<noteq> k \<and> k' \<noteq> [] \<longrightarrow> \<not> prefix k' k \<and> \<not> prefix k k')"
  have ext: "\<forall>(k', v') \<in> set dgm. prefix k k' \<longrightarrow> k' = k \<and> v' = v"
  proof clarsimp
    fix k' v' assume m: "(k', v') \<in> set dgm" and p: "prefix k k'"
    have "k' \<noteq> []" using p a by auto
    with a m p have "k' = k" by blast
    moreover from a have "map_of dgm k = Some v" by simp
    moreover from a m have "map_of dgm k' = Some v'" by simp
    ultimately show "k' = k \<and> v' = v" by simp
  qed
  have short: "\<forall>(k', v') \<in> set dgm. k' \<noteq> [] \<longrightarrow> \<not> strict_prefix k' k"
  proof clarsimp
    fix k' v' assume m: "(k', v') \<in> set dgm" and n: "k' \<noteq> []" and p: "strict_prefix k' k"
    from p have "k' \<noteq> k" by auto
    with a m n have "\<not> prefix k' k" by blast
    with p show False by (simp add: strict_prefix_def)
  qed
  from a have "(k, v) \<in> set dgm" "k \<noteq> []" by simp_all
  from search_build_round_trip[OF this ext short]
  show "deft_search (deft_init_trie dgm) k = Some v"
    by (simp add: deft_init_trie_build deft_search_eq)
qed

theorem round_trip_without_overlap_witness:
  "adeft_search
     (adeft_init_trie (\<lambda>s. s) words_tokenize [(''b a'', ''g2''), (''c'', ''g1'')])
     (edges_of (\<lambda>s. s) words_tokenize ''b a'') = Some ''b a'' \<and>
   post_process [(''b a'', ''g2''), (''c'', ''g1'')] ''b a'' = Inr ''g2'' \<and>
   deft_search (deft_init_trie [([''a'', ''b''], ''g2''), ([''c''], ''g1'')]) [''a'', ''b'']
     = Some ''g2''"
proof -
  let ?E = "edges_of (\<lambda>s. s) words_tokenize"
  let ?gm = "[(''b a'', ''g2''), (''c'', ''g1'')]"
  let ?dgm = "[([''a'', ''b''], ''g2''), ([''c''], ''g1'')]"
  have a: "(''b a'', ''g2'') \<in> set ?gm \<and> distinct (map fst ?gm) \<and> ?E ''b a'' \<noteq> [] \<and>
    (\<forall>(lf', g') \<in> set ?gm. lf' \<noteq> ''b a'' \<and> ?E lf' \<noteq> [] \<longrightarrow>
       \<not> prefix (?E lf') (?E ''b a'') \<and> \<not> prefix (?E ''b a'') (?E lf'))"
    by (simp add: eval_words)
  have d: "([''a'', ''b''], ''g2'') \<in> set ?dgm \<and> distinct (map fst ?dgm) \<and>
    [''a'', ''b''] \<noteq> ([] :: string list) \<and>
    (\<forall>(k', v') \<in> set ?dgm. k' \<noteq> [''a'', ''b''] \<and> k' \<noteq> [] \<longrightarrow>
       \<not> prefix k' [''a'', ''b''] \<and> \<not> prefix [''a'', ''b''] k')"
    by simp
  show ?thesis
    using a d round_trip_without_overlap[of "''b a''" "''g2''" ?gm "\<lambda>s. s" words_tokenize
        "[''a'', ''b'']" "''g2''" ?dgm]
    by blast
qed

theorem round_trip_counterexample:
  "map_of [(''a'', ''g1''), (''b a'', ''g2'')] ''b a'' = Some ''g2'' \<and>
   adeft_search
     (adeft_init_trie (\<lambda>s. s) words_tokenize [(''a'', ''g1''), (''b a'', ''g2'')])
     (edges_of (\<lambda>s. s) words_tokenize ''b a'') = Some ''a'' \<and>
   post_process [(''a'', ''g1''), (''b a'', ''g2'')] ''a'' = Inr ''g1'' \<and>
   deft_search (deft_init_trie [([''a''], ''g1''), ([''a'', ''b''], ''g2'')]) [''a'', ''b'']
     = Some ''g1''"
  by (simp add: eval_words eval_trie post_process_def)

text \<open>
  C2. The trie at the grounding map \<^verbatim>\<open>{"b a": "g2", "a": "g1"}\<close>, whose longer longform
  comes first: the key of \<^verbatim>\<open>"a"\<close> is a strict prefix of the key of \<^verbatim>\<open>"b a"\<close>, and the
  node at the end of its path carries no payload. With the two items in the other order
  the same node is terminal. The deft revision does the same on the keys
  \<^verbatim>\<open>("a", "b")\<close> and \<^verbatim>\<open>("a",)\<close>.
\<close>

theorem shorter_key_after_longer_is_not_terminal:
  "edges_of (\<lambda>s. s) words_tokenize ''a'' = [''a''] \<and>
   edges_of (\<lambda>s. s) words_tokenize ''b a'' = [''a'', ''b''] \<and>
   terminal_at
     (adeft_init_trie (\<lambda>s. s) words_tokenize [(''b a'', ''g2''), (''a'', ''g1'')]) [''a''] = None \<and>
   terminal_at
     (adeft_init_trie (\<lambda>s. s) words_tokenize [(''a'', ''g1''), (''b a'', ''g2'')]) [''a'']
       = Some ''a'' \<and>
   terminal_at (deft_init_trie [([''a'', ''b''], ''g2''), ([''a''], ''g1'')]) [''a''] = None \<and>
   terminal_at (deft_init_trie [([''a''], ''g1''), ([''a'', ''b''], ''g2'')]) [''a'']
       = Some ''g1''"
  by (simp add: eval_words eval_trie)

text \<open>
  C4. The text \<^verbatim>\<open>"b a (S)"\<close> with the longforms \<^verbatim>\<open>"a"\<close> and \<^verbatim>\<open>"b a"\<close>: the fragment
  before the parenthesized shortform is \<^verbatim>\<open>"b a "\<close> and its candidate tokens are
  \<^verbatim>\<open>["b", "a"]\<close>. When the longer longform is inserted first, the recognizer returns its
  grounding; when the shorter one is inserted first, it returns the grounding of the
  shorter one.
\<close>

theorem recognized_grounding_depends_on_insertion_order:
  "adeft_recognize (\<lambda>s. s) words_tokenize (\<lambda>text shortform window. [''b a ''])
     (\<lambda>fragment exclude. map fst (words_tokenize fragment))
     [(''b a'', ''g2''), (''a'', ''g1'')] ''S'' 100 {} ''b a (S)'' = Inr {''g2''} \<and>
   adeft_recognize (\<lambda>s. s) words_tokenize (\<lambda>text shortform window. [''b a ''])
     (\<lambda>fragment exclude. map fst (words_tokenize fragment))
     [(''a'', ''g1''), (''b a'', ''g2'')] ''S'' 100 {} ''b a (S)'' = Inr {''g1''}"
  by (simp add: adeft_recognize_def recognize_fragment_def post_process_def eval_words eval_trie)

text \<open>
  C9. The deft recognizer on a text with two candidates, \<^verbatim>\<open>["a"]\<close> matching the longform
  with grounding \<^verbatim>\<open>"G1"\<close> and \<^verbatim>\<open>["z"]\<close> matching nothing: the set of results is
  \<^verbatim>\<open>{"G1", None}\<close>, so the call logs, although a single grounding was found, and
  \<^verbatim>\<open>None\<close> is one of the values it may return.
\<close>

theorem deft_recognize_may_return_None_despite_match:
  "deft_groundings (\<lambda>text. [[''a''], [''z'']]) (\<lambda>s. s) [([''a''], ''G1'')] ''a (S). z (S)''
     = {Some ''G1'', None} \<and>
   deft_recognize_logs (\<lambda>text. [[''a''], [''z'']]) (\<lambda>s. s) [([''a''], ''G1'')] ''a (S). z (S)'' \<and>
   deft_recognize (\<lambda>text. [[''a''], [''z'']]) (\<lambda>s. s) [([''a''], ''G1'')] ''a (S). z (S)'' None \<and>
   deft_recognize (\<lambda>text. [[''a''], [''z'']]) (\<lambda>s. s) [([''a''], ''G1'')] ''a (S). z (S)''
     (Some ''G1'')"
  by (simp add: deft_recognize_def deft_recognize_logs_def deft_groundings_def eval_trie)

text \<open>
  C10. \<^verbatim>\<open>recognize\<close> of the adeft revision raises no error (the longform a search returns
  is a key of the grounding map, so the lookup of \<^verbatim>\<open>_post_process\<close> succeeds), and every
  element of the set it returns is a value of the grounding map.
\<close>

theorem recognize_within_groundings:
  "\<exists>S. adeft_recognize stem tokenize get_candidate_fragments get_candidate
          gm shortform window exclude text = Inr S \<and>
        S \<subseteq> ran (map_of gm)"
  unfolding adeft_recognize_def
  by (rule for_each_invariant[where I = "\<lambda>S. S \<subseteq> ran (map_of gm)"])
     (simp_all add: recognize_fragment_groundings)

theorem recognize_within_groundings_witness:
  "\<exists>S. adeft_recognize (\<lambda>s. s) words_tokenize (\<lambda>text shortform window. [''b a ''])
          (\<lambda>fragment exclude. map fst (words_tokenize fragment))
          [(''a'', ''g1''), (''b a'', ''g2'')] ''S'' 100 {} ''b a (S)'' = Inr S \<and>
        S \<subseteq> ran (map_of [(''a'', ''g1''), (''b a'', ''g2'')])"
  by (rule recognize_within_groundings)

text \<open>
  C7. The grounding map \<^verbatim>\<open>{"\<plusminus> \<plusminus> a": "X"}\<close> (the plus-minus sign is code point 177:
  neither punctuation nor a word character) and the text \<^verbatim>\<open>"\<plusminus> \<plusminus> a (S)"\<close>, whose
  fragment \<^verbatim>\<open>"\<plusminus> \<plusminus> a "\<close> has the three tokens of the longform. The search returns the
  longform, \<^verbatim>\<open>num_words\<close> is 3, and the fragment holds one word token: the scan counts it
  at index 2 and again at index -1, and raises \<^verbatim>\<open>IndexError\<close> at index -4.
\<close>

theorem scan_back_raises_IndexError:
  "adeft_search
     (adeft_init_trie (\<lambda>s. s) words_tokenize [([CHR 0xB1, CHR '' '', CHR 0xB1, CHR '' '', CHR ''a''], ''X'')])
     (map (\<lambda>s. s) (filter (\<lambda>token. \<not> str_in token punctuation)
        (map fst (rev (words_tokenize [CHR 0xB1, CHR '' '', CHR 0xB1, CHR '' '', CHR ''a'', CHR '' ''])))))
     = Some [CHR 0xB1, CHR '' '', CHR 0xB1, CHR '' '', CHR ''a''] \<and>
   length (str_split [CHR 0xB1, CHR '' '', CHR 0xB1, CHR '' '', CHR ''a'']) = 3 \<and>
   scan_back (words_tokenize [CHR 0xB1, CHR '' '', CHR 0xB1, CHR '' '', CHR ''a'', CHR '' '']) 3 0 2
     = Inl IndexError \<and>
   strip_defining_patterns (\<lambda>s. s) words_tokenize words_untokenize
     (\<lambda>text shortform window. [[CHR 0xB1, CHR '' '', CHR 0xB1, CHR '' '', CHR ''a'', CHR '' '']])
     [([CHR 0xB1, CHR '' '', CHR 0xB1, CHR '' '', CHR ''a''], ''X'')] ''S''
     ([CHR 0xB1, CHR '' '', CHR 0xB1, CHR '' '', CHR ''a''] @ '' (S)'')
     = Inl IndexError"
  by code_simp




end
